theory Spec2Isabelle
  imports Complex_Main "HOL-Library.AList" "HOL-Library.Multiset" "HOL-Library.Sublist"
begin

section \<open>Data model of \<^verbatim>\<open>utils/transaction_coordinator.py\<close>\<close>

text \<open>
  The two enums of the module. \<open>status_value\<close> is the \<^verbatim>\<open>.value\<close> of a member,
  \<open>TransactionStatus_of_value\<close> is the call \<^verbatim>\<open>TransactionStatus(v)\<close>, which raises
  \<^verbatim>\<open>ValueError\<close> (here \<open>None\<close>) for a string that is no member's value.
\<close>

datatype TransactionStatus = PENDING | APPROVED | EXECUTING | COMPLETED | FAILED | CANCELLED

datatype TransactionType = NFT_PURCHASE | NFT_LISTING | NFT_TRANSFER | BATCH_OPERATION | ESCROW_RELEASE

fun status_value :: "TransactionStatus \<Rightarrow> string" where
  "status_value PENDING = ''pending''"
| "status_value APPROVED = ''approved''"
| "status_value EXECUTING = ''executing''"
| "status_value COMPLETED = ''completed''"
| "status_value FAILED = ''failed''"
| "status_value CANCELLED = ''cancelled''"

definition TransactionStatus_of_value :: "string \<Rightarrow> TransactionStatus option" where
  "TransactionStatus_of_value v =
     (if v = ''pending'' then Some PENDING
      else if v = ''approved'' then Some APPROVED
      else if v = ''executing'' then Some EXECUTING
      else if v = ''completed'' then Some COMPLETED
      else if v = ''failed'' then Some FAILED
      else if v = ''cancelled'' then Some CANCELLED
      else None)"

fun type_value :: "TransactionType \<Rightarrow> string" where
  "type_value NFT_PURCHASE = ''nft_purchase''"
| "type_value NFT_LISTING = ''nft_listing''"
| "type_value NFT_TRANSFER = ''nft_transfer''"
| "type_value BATCH_OPERATION = ''batch_operation''"
| "type_value ESCROW_RELEASE = ''escrow_release''"

definition TransactionType_of_value :: "string \<Rightarrow> TransactionType option" where
  "TransactionType_of_value v =
     (if v = ''nft_purchase'' then Some NFT_PURCHASE
      else if v = ''nft_listing'' then Some NFT_LISTING
      else if v = ''nft_transfer'' then Some NFT_TRANSFER
      else if v = ''batch_operation'' then Some BATCH_OPERATION
      else if v = ''escrow_release'' then Some ESCROW_RELEASE
      else None)"

text \<open>
  The values a \<^verbatim>\<open>Dict[str, Any]\<close> of the module holds (step parameters, step results,
  transaction metadata): the values JSON has. A Python float is a \<open>real\<close> here; its
  rounding is not modelled, and nothing below depends on the value of a product.
  A dict is an association list in insertion order with distinct keys.
\<close>

datatype pyval =
    PNone
  | PBool bool
  | PFloat real
  | PStr string
  | PList "pyval list"
  | PDict "(string \<times> pyval) list"

type_synonym pydict = "(string \<times> pyval) list"

text \<open>
  The dataclasses. The type parameters are the types of the enum-valued fields: the
  enums themselves in memory, \<open>string\<close> in the dict that \<^verbatim>\<open>asdict\<close> and the
  enum-to-string conversion of \<^verbatim>\<open>_save_transaction_data\<close> produce. The field
  \<^verbatim>\<open>status\<close> of \<^verbatim>\<open>Transaction\<close> is \<open>tx_status\<close> here, since a step has a field of
  the same name.
\<close>

record 's TransactionStep =
  step_id :: string
  agent_address :: string
  action :: string
  parameters :: pydict
  status :: 's
  result :: "pydict option"
  error_message :: "string option"
  timestamp :: "string option"
  dependencies :: "string list"

record ('t, 's) Transaction =
  transaction_id :: string
  transaction_type :: 't
  initiator_address :: string
  participants :: "string list"
  steps :: "'s TransactionStep list"
  tx_status :: 's
  total_value :: real
  fees :: "(string \<times> real) list"
  metadata :: pydict
  created_at :: string
  updated_at :: string
  completed_at :: "string option"

type_synonym step = "TransactionStatus TransactionStep"
type_synonym tx = "(TransactionType, TransactionStatus) Transaction"
type_synonym step_dict = "string TransactionStep"
type_synonym tx_dict = "(string, string) Transaction"

text \<open>
  The constructor of \<^verbatim>\<open>TransactionStep\<close> as the module calls it: \<^verbatim>\<open>result\<close>,
  \<^verbatim>\<open>error_message\<close> and \<^verbatim>\<open>timestamp\<close> default to \<^verbatim>\<open>None\<close>, and
  \<^verbatim>\<open>__post_init__\<close> replaces a \<^verbatim>\<open>dependencies\<close> of \<^verbatim>\<open>None\<close> by the empty list.
\<close>

definition new_TransactionStep ::
  "string \<Rightarrow> string \<Rightarrow> string \<Rightarrow> pydict \<Rightarrow> TransactionStatus \<Rightarrow> string list option \<Rightarrow> step" where
  "new_TransactionStep sid agent act params st deps =
     \<lparr>step_id = sid, agent_address = agent, action = act, parameters = params, status = st,
      result = None, error_message = None, timestamp = None,
      dependencies = (case deps of None \<Rightarrow> [] | Some ds \<Rightarrow> ds)\<rparr>"

section \<open>The ready set\<close>

text \<open>
  \<^verbatim>\<open>Transaction.get_next_pending_steps\<close>: the ids of the completed steps are collected
  first; a step is ready when it is pending and each of its dependency ids is among them.
\<close>

definition completed_step_ids :: "tx \<Rightarrow> string set" where
  "completed_step_ids t = set (map step_id (filter (\<lambda>s. status s = COMPLETED) (steps t)))"

definition is_ready :: "string set \<Rightarrow> step \<Rightarrow> bool" where
  "is_ready done s = (status s = PENDING \<and> list_all (\<lambda>dep_id. dep_id \<in> done) (dependencies s))"

definition get_next_pending_steps :: "tx \<Rightarrow> step list" where
  "get_next_pending_steps t = filter (is_ready (completed_step_ids t)) (steps t)"

section \<open>Executing a batch of steps\<close>

text \<open>
  An action handler takes a step and returns its result dict or raises; \<open>Inl msg\<close> is
  the raised exception, with \<open>msg\<close> its \<^verbatim>\<open>str\<close>. \<^verbatim>\<open>simulate_step_execution\<close> is the
  handler the module installs; the functions below take the handler as a parameter.
  \<^verbatim>\<open>datetime.now(timezone.utc).isoformat()\<close> is a clock read: \<open>clk k\<close> is the
  string the \<open>k\<close>-th read returns, and every function that reads the clock takes the
  number of reads so far and returns the new number.
\<close>

type_synonym handler = "step \<Rightarrow> string + pydict"
type_synonym clock = "nat \<Rightarrow> string"

text \<open>
  \<^verbatim>\<open>execute_transaction_steps\<close> receives the ready steps as objects of the
  transaction's own step list and assigns to their fields. In the model the objects
  handed over are marked by position: \<open>sel ! i\<close> says that the \<open>i\<close>-th step of the
  transaction is one of them. \<^verbatim>\<open>asyncio.gather(..., return_exceptions=True)\<close> never
  raises; the loop over \<^verbatim>\<open>zip(steps, results)\<close> then marks each step.
  The list \<open>sel\<close> is always built from the step list it is used with
  (\<open>ready_flags\<close> below), so it has one flag for each step. The outcome of a handler
  is taken as a function of the step it is given; the steps of one transaction
  differ in their ids.
\<close>

fun update_step_statuses :: "handler \<Rightarrow> clock \<Rightarrow> nat \<Rightarrow> (step \<times> bool) list \<Rightarrow> step list \<times> nat" where
  "update_step_statuses h clk k [] = ([], k)"
| "update_step_statuses h clk k ((s, b) # rest) =
     (if b then
        (case h s of
           Inl msg \<Rightarrow>
             (case update_step_statuses h clk k rest of
                (ss, k') \<Rightarrow> (s\<lparr>status := FAILED, error_message := Some msg\<rparr> # ss, k'))
         | Inr res \<Rightarrow>
             (case update_step_statuses h clk (Suc k) rest of
                (ss, k') \<Rightarrow>
                  (s\<lparr>status := COMPLETED, result := Some res, timestamp := Some (clk k)\<rparr> # ss, k')))
      else
        (case update_step_statuses h clk k rest of (ss, k') \<Rightarrow> (s # ss, k')))"

definition execute_transaction_steps :: "handler \<Rightarrow> clock \<Rightarrow> nat \<Rightarrow> tx \<Rightarrow> bool list \<Rightarrow> tx \<times> nat" where
  "execute_transaction_steps h clk k t sel =
     (case update_step_statuses h clk k (zip (steps t) sel) of
        (ss, k') \<Rightarrow> (t\<lparr>steps := ss\<rparr>, k'))"

definition ready_flags :: "tx \<Rightarrow> bool list" where
  "ready_flags t = map (is_ready (completed_step_ids t)) (steps t)"

section \<open>The execution loop\<close>

text \<open>
  The \<^verbatim>\<open>while\<close> loop of \<^verbatim>\<open>process_transaction\<close> on the transaction object.
  \<open>loop_body\<close> is one pass through the body; its first component says whether the pass
  ended in \<^verbatim>\<open>break\<close>. The branch that sleeps and continues leaves the transaction as
  it is, so the loop need not end: the first numeric argument of \<open>process_loop\<close> bounds
  the number of times the loop condition is evaluated, and \<open>None\<close> says that the loop
  is still running after that many.
\<close>

definition loop_body :: "handler \<Rightarrow> clock \<Rightarrow> nat \<Rightarrow> tx \<Rightarrow> bool \<times> tx \<times> nat" where
  "loop_body h clk k t =
     (if get_next_pending_steps t = [] then
        (if filter (\<lambda>s. status s = FAILED) (steps t) \<noteq> [] then
           (True, t\<lparr>tx_status := FAILED\<rparr>, k)
         else if length (filter (\<lambda>s. status s = COMPLETED) (steps t)) = length (steps t) then
           (True, t\<lparr>tx_status := COMPLETED, completed_at := Some (clk k)\<rparr>, Suc k)
         else (False, t, k))
      else
        (case execute_transaction_steps h clk k t (ready_flags t) of
           (t', k') \<Rightarrow> (False, t'\<lparr>updated_at := clk k'\<rparr>, Suc k')))"

fun process_loop :: "handler \<Rightarrow> clock \<Rightarrow> nat \<Rightarrow> nat \<Rightarrow> tx \<Rightarrow> (tx \<times> nat) option" where
  "process_loop h clk 0 k t = None"
| "process_loop h clk (Suc n) k t =
     (if tx_status t \<noteq> EXECUTING then Some (t, k)
      else
        (case loop_body h clk k t of
           (True, t', k') \<Rightarrow> Some (t', k')
         | (False, t', k') \<Rightarrow> process_loop h clk n k' t'))"

section \<open>The coordinator\<close>

text \<open>
  \<^verbatim>\<open>Transaction\<close> objects are mutable and shared: the dict of active transactions, the
  history list and every running \<^verbatim>\<open>process_transaction\<close> coroutine hold references to
  the same objects. \<open>objs\<close> is the store of the objects ever created, a reference is
  an index into it; \<open>active_transactions\<close> is the dict (keys in insertion order) and
  \<open>transaction_history\<close> the list, both of references. \<open>data_file\<close> is the content of
  \<^verbatim>\<open>transaction_data.json\<close>, the list under its key \<^verbatim>\<open>"transactions"\<close>, or \<open>None\<close>
  when the file does not exist. The attribute \<^verbatim>\<open>agent_capabilities\<close> is a constant
  that no method reads and is left out.
\<close>

record TransactionCoordinator =
  objs :: "tx list"
  active_transactions :: "(string \<times> nat) list"
  transaction_history :: "nat list"
  data_file :: "tx_dict list option"

definition active_objects :: "TransactionCoordinator \<Rightarrow> tx list" where
  "active_objects c = map (\<lambda>(tid, r). objs c ! r) (active_transactions c)"

definition history_objects :: "TransactionCoordinator \<Rightarrow> tx list" where
  "history_objects c = map (\<lambda>r. objs c ! r) (transaction_history c)"

subsection \<open>Saving and loading\<close>

definition step_to_dict :: "step \<Rightarrow> step_dict" where
  "step_to_dict s =
     \<lparr>step_id = step_id s, agent_address = agent_address s, action = action s,
      parameters = parameters s, status = status_value (status s), result = result s,
      error_message = error_message s, timestamp = timestamp s, dependencies = dependencies s\<rparr>"

definition tx_to_dict :: "tx \<Rightarrow> tx_dict" where
  "tx_to_dict t =
     \<lparr>transaction_id = transaction_id t, transaction_type = type_value (transaction_type t),
      initiator_address = initiator_address t, participants = participants t,
      steps = map step_to_dict (steps t), tx_status = status_value (tx_status t),
      total_value = total_value t, fees = fees t, metadata = metadata t,
      created_at = created_at t, updated_at = updated_at t, completed_at = completed_at t\<rparr>"

text \<open>
  \<^verbatim>\<open>_save_transaction_data\<close>: the active transactions in dict order, then the history,
  each as a dict with its enums as strings, overwrite the file. The values of the model
  are all JSON values, so \<^verbatim>\<open>json.dump\<close> does not raise; a failing write of the file
  itself is not modelled.
\<close>

definition save_transaction_data :: "TransactionCoordinator \<Rightarrow> TransactionCoordinator" where
  "save_transaction_data c =
     c\<lparr>data_file := Some (map tx_to_dict (active_objects c @ history_objects c))\<rparr>"

definition step_from_dict :: "step_dict \<Rightarrow> step option" where
  "step_from_dict d =
     (case TransactionStatus_of_value (status d) of
        None \<Rightarrow> None
      | Some st \<Rightarrow>
          Some \<lparr>step_id = step_id d, agent_address = agent_address d, action = action d,
                parameters = parameters d, status = st, result = result d,
                error_message = error_message d, timestamp = timestamp d,
                dependencies = dependencies d\<rparr>)"

fun steps_from_dicts :: "step_dict list \<Rightarrow> step list option" where
  "steps_from_dicts [] = Some []"
| "steps_from_dicts (d # ds) =
     (case step_from_dict d of
        None \<Rightarrow> None
      | Some s \<Rightarrow> (case steps_from_dicts ds of None \<Rightarrow> None | Some ss \<Rightarrow> Some (s # ss)))"

definition tx_from_dict :: "tx_dict \<Rightarrow> tx option" where
  "tx_from_dict d =
     (case TransactionType_of_value (transaction_type d) of
        None \<Rightarrow> None
      | Some ty \<Rightarrow>
          (case TransactionStatus_of_value (tx_status d) of
             None \<Rightarrow> None
           | Some st \<Rightarrow>
               (case steps_from_dicts (steps d) of
                  None \<Rightarrow> None
                | Some ss \<Rightarrow>
                    Some \<lparr>transaction_id = transaction_id d, transaction_type = ty,
                          initiator_address = initiator_address d, participants = participants d,
                          steps = ss, tx_status = st, total_value = total_value d, fees = fees d,
                          metadata = metadata d, created_at = created_at d,
                          updated_at = updated_at d, completed_at = completed_at d\<rparr>)))"

text \<open>
  The loop of \<^verbatim>\<open>_load_transaction_data\<close> over the stored dicts. An enum constructor
  that raises ends the whole loop through the \<^verbatim>\<open>except\<close> clause around it, and the
  transactions loaded so far stay.
\<close>

fun load_transactions :: "tx_dict list \<Rightarrow> TransactionCoordinator \<Rightarrow> TransactionCoordinator" where
  "load_transactions [] c = c"
| "load_transactions (d # ds) c =
     (case tx_from_dict d of
        None \<Rightarrow> c
      | Some t \<Rightarrow>
          (let r = length (objs c); c1 = c\<lparr>objs := objs c @ [t]\<rparr> in
           load_transactions ds
             (if tx_status t = PENDING \<or> tx_status t = EXECUTING
              then c1\<lparr>active_transactions := AList.update (transaction_id t) r (active_transactions c1)\<rparr>
              else c1\<lparr>transaction_history := transaction_history c1 @ [r]\<rparr>)))"

definition load_transaction_data :: "TransactionCoordinator \<Rightarrow> TransactionCoordinator" where
  "load_transaction_data c =
     (case data_file c of None \<Rightarrow> c | Some ds \<Rightarrow> load_transactions ds c)"

text \<open>\<^verbatim>\<open>TransactionCoordinator.__init__\<close>, given the content of the data file.\<close>

definition new_TransactionCoordinator :: "tx_dict list option \<Rightarrow> TransactionCoordinator" where
  "new_TransactionCoordinator file =
     load_transaction_data
       \<lparr>objs = [], active_transactions = [], transaction_history = [], data_file = file\<rparr>"

subsection \<open>Initiating a purchase or a listing\<close>

text \<open>
  \<open>u\<close> is the string \<^verbatim>\<open>uuid.uuid4().hex[:8]\<close> and \<open>now\<close> the one clock read of the
  call. \<^verbatim>\<open>metadata or {}\<close> is the empty dict for \<^verbatim>\<open>None\<close> and for an empty dict, and
  the dict passed otherwise. Both operations end by creating the task that runs
  \<^verbatim>\<open>process_transaction\<close> on the new id; the task does not run before the caller next
  awaits, and its run is \<open>task_step\<close> below.
\<close>

definition purchase_steps :: "string \<Rightarrow> string \<Rightarrow> string \<Rightarrow> string \<Rightarrow> real \<Rightarrow> step list" where
  "purchase_steps tid buyer_address seller_address nft_token_id purchase_price =
     [new_TransactionStep (tid @ ''_step_1'') ''memory_appraiser'' ''verify_valuation''
        [(''nft_token_id'', PStr nft_token_id), (''offered_price'', PFloat purchase_price),
         (''market_validation'', PBool True)]
        PENDING (Some []),
      new_TransactionStep (tid @ ''_step_2'') ''authenticity_validator'' ''verify_authenticity''
        [(''nft_token_id'', PStr nft_token_id), (''seller_address'', PStr seller_address),
         (''comprehensive_check'', PBool True)]
        PENDING (Some []),
      new_TransactionStep (tid @ ''_step_3'') ''trading_legacy_agent'' ''setup_escrow''
        [(''buyer_address'', PStr buyer_address), (''seller_address'', PStr seller_address),
         (''amount'', PFloat purchase_price), (''nft_token_id'', PStr nft_token_id)]
        PENDING (Some [tid @ ''_step_1'', tid @ ''_step_2'']),
      new_TransactionStep (tid @ ''_step_4'') ''trading_legacy_agent'' ''execute_transfer''
        [(''from_address'', PStr seller_address), (''to_address'', PStr buyer_address),
         (''nft_token_id'', PStr nft_token_id), (''payment_amount'', PFloat purchase_price)]
        PENDING (Some [tid @ ''_step_3'']),
      new_TransactionStep (tid @ ''_step_5'') ''marketplace_coordinator'' ''finalize_transaction''
        [(''transaction_id'', PStr tid), (''update_market_data'', PBool True),
         (''notify_participants'', PBool True)]
        PENDING (Some [tid @ ''_step_4''])]"

definition register_transaction :: "TransactionCoordinator \<Rightarrow> tx \<Rightarrow> TransactionCoordinator" where
  "register_transaction c t =
     save_transaction_data
       (c\<lparr>objs := objs c @ [t],
          active_transactions := AList.update (transaction_id t) (length (objs c)) (active_transactions c)\<rparr>)"

definition initiate_nft_purchase ::
  "TransactionCoordinator \<Rightarrow> string \<Rightarrow> string \<Rightarrow> string \<Rightarrow> string \<Rightarrow> string \<Rightarrow> real \<Rightarrow> pydict option
     \<Rightarrow> string \<times> TransactionCoordinator" where
  "initiate_nft_purchase c u now buyer_address seller_address nft_token_id purchase_price md =
     (let tid = ''tx_'' @ u;
          t = \<lparr>transaction_id = tid, transaction_type = NFT_PURCHASE,
               initiator_address = buyer_address,
               participants = [buyer_address, seller_address, ''memory_appraiser'',
                               ''authenticity_validator'', ''trading_legacy_agent'',
                               ''marketplace_coordinator''],
               steps = purchase_steps tid buyer_address seller_address nft_token_id purchase_price,
               tx_status = PENDING, total_value = purchase_price,
               fees = [(''marketplace_fee'', purchase_price * 0.025), (''gas_fee'', 15.0),
                       (''validation_fee'', 5.0)],
               metadata = (case md of None \<Rightarrow> [] | Some m \<Rightarrow> m),
               created_at = now, updated_at = now, completed_at = None\<rparr>
      in (tid, register_transaction c t))"

definition listing_steps :: "string \<Rightarrow> string \<Rightarrow> string \<Rightarrow> real \<Rightarrow> pydict option \<Rightarrow> step list" where
  "listing_steps tid seller_address nft_token_id asking_price md =
     [new_TransactionStep (tid @ ''_step_1'') ''authenticity_validator'' ''verify_ownership''
        [(''nft_token_id'', PStr nft_token_id), (''claimed_owner'', PStr seller_address)]
        PENDING None,
      new_TransactionStep (tid @ ''_step_2'') ''memory_appraiser'' ''market_valuation''
        [(''nft_token_id'', PStr nft_token_id), (''asking_price'', PFloat asking_price),
         (''provide_pricing_recommendation'', PBool True)]
        PENDING None,
      new_TransactionStep (tid @ ''_step_3'') ''marketplace_coordinator'' ''create_listing''
        [(''seller_address'', PStr seller_address), (''nft_token_id'', PStr nft_token_id),
         (''asking_price'', PFloat asking_price),
         (''metadata'', (case md of None \<Rightarrow> PNone | Some m \<Rightarrow> PDict m))]
        PENDING (Some [tid @ ''_step_1'', tid @ ''_step_2''])]"

definition initiate_nft_listing ::
  "TransactionCoordinator \<Rightarrow> string \<Rightarrow> string \<Rightarrow> string \<Rightarrow> string \<Rightarrow> real \<Rightarrow> pydict option
     \<Rightarrow> string \<times> TransactionCoordinator" where
  "initiate_nft_listing c u now seller_address nft_token_id asking_price md =
     (let tid = ''tx_'' @ u;
          t = \<lparr>transaction_id = tid, transaction_type = NFT_LISTING,
               initiator_address = seller_address,
               participants = [seller_address, ''authenticity_validator'', ''memory_appraiser'',
                               ''marketplace_coordinator''],
               steps = listing_steps tid seller_address nft_token_id asking_price md,
               tx_status = PENDING, total_value = asking_price,
               fees = [(''listing_fee'', 5.0), (''validation_fee'', 3.0)],
               metadata = (case md of None \<Rightarrow> [] | Some m \<Rightarrow> m),
               created_at = now, updated_at = now, completed_at = None\<rparr>
      in (tid, register_transaction c t))"

subsection \<open>Running a transaction\<close>

text \<open>
  \<^verbatim>\<open>process_transaction\<close> is a coroutine: it runs without interruption from one
  \<^verbatim>\<open>await\<close> to the next, and between two such pieces any other operation of the
  coordinator may run. A suspended coroutine is one of the following: created by
  \<^verbatim>\<open>asyncio.create_task\<close> and not started; asleep in one of the two
  \<^verbatim>\<open>asyncio.sleep\<close> calls of the loop, to continue with the loop condition; waiting in
  \<^verbatim>\<open>asyncio.gather\<close> for the handlers of the ready steps, to continue with the loop
  over the results. It keeps its argument \<^verbatim>\<open>transaction_id\<close>, its local variable
  \<^verbatim>\<open>transaction\<close> (a reference) and, while the handlers run, the ready steps.
\<close>

datatype coroutine =
    NotStarted string
  | Sleeping string nat
  | Gathering string nat "bool list"
  | Returned

text \<open>
  The statements after the loop. \<^verbatim>\<open>del self.active_transactions[transaction_id]\<close>
  raises \<^verbatim>\<open>KeyError\<close> when the id is no key of the dict; the \<^verbatim>\<open>except\<close> clause of the
  function then marks the transaction failed, after the append to the history and
  without a save.
\<close>

definition move_to_history :: "clock \<Rightarrow> TransactionCoordinator \<Rightarrow> nat \<Rightarrow> string \<Rightarrow> nat \<Rightarrow> TransactionCoordinator \<times> nat" where
  "move_to_history clk c k tid r =
     (if tx_status (objs c ! r) = COMPLETED \<or> tx_status (objs c ! r) = FAILED then
        (let c1 = c\<lparr>transaction_history := transaction_history c @ [r]\<rparr> in
         if map_of (active_transactions c1) tid = None then
           (c1\<lparr>objs := (objs c1)[r := (objs c1 ! r)\<lparr>tx_status := FAILED, updated_at := clk k\<rparr>]\<rparr>, Suc k)
         else
           (save_transaction_data
              (c1\<lparr>active_transactions := AList.delete tid (active_transactions c1)\<rparr>), k))
      else (c, k))"

text \<open>From the loop condition to the next \<^verbatim>\<open>await\<close> or to the end of the function.\<close>

definition resume_loop :: "clock \<Rightarrow> TransactionCoordinator \<Rightarrow> nat \<Rightarrow> string \<Rightarrow> nat \<Rightarrow> TransactionCoordinator \<times> nat \<times> coroutine" where
  "resume_loop clk c k tid r =
     (let t = objs c ! r in
      if tx_status t \<noteq> EXECUTING then
        (case move_to_history clk c k tid r of (c', k') \<Rightarrow> (c', k', Returned))
      else if get_next_pending_steps t = [] then
        (if filter (\<lambda>s. status s = FAILED) (steps t) \<noteq> [] then
           (case move_to_history clk (c\<lparr>objs := (objs c)[r := t\<lparr>tx_status := FAILED\<rparr>]\<rparr>) k tid r of
              (c', k') \<Rightarrow> (c', k', Returned))
         else if length (filter (\<lambda>s. status s = COMPLETED) (steps t)) = length (steps t) then
           (case move_to_history clk
                   (c\<lparr>objs := (objs c)[r := t\<lparr>tx_status := COMPLETED, completed_at := Some (clk k)\<rparr>]\<rparr>)
                   (Suc k) tid r of
              (c', k') \<Rightarrow> (c', k', Returned))
         else (c, k, Sleeping tid r))
      else (c, k, Gathering tid r (ready_flags t)))"

text \<open>
  From the return of \<^verbatim>\<open>asyncio.gather\<close> to the \<^verbatim>\<open>asyncio.sleep(0.5)\<close> that follows
  the save: the results are written to the ready steps, \<^verbatim>\<open>updated_at\<close> is stamped,
  the data is saved.
\<close>

definition resume_gather :: "handler \<Rightarrow> clock \<Rightarrow> TransactionCoordinator \<Rightarrow> nat \<Rightarrow> string \<Rightarrow> nat \<Rightarrow> bool list \<Rightarrow> TransactionCoordinator \<times> nat \<times> coroutine" where
  "resume_gather h clk c k tid r sel =
     (case execute_transaction_steps h clk k (objs c ! r) sel of
        (t', k') \<Rightarrow>
          (save_transaction_data (c\<lparr>objs := (objs c)[r := t'\<lparr>updated_at := clk k'\<rparr>]\<rparr>),
           Suc k', Sleeping tid r))"

fun coroutine_step :: "handler \<Rightarrow> clock \<Rightarrow> TransactionCoordinator \<Rightarrow> nat \<Rightarrow> coroutine \<Rightarrow> TransactionCoordinator \<times> nat \<times> coroutine" where
  "coroutine_step h clk c k (NotStarted tid) =
     (case map_of (active_transactions c) tid of
        None \<Rightarrow> (c, k, Returned)
      | Some r \<Rightarrow>
          resume_loop clk
            (c\<lparr>objs := (objs c)[r := (objs c ! r)\<lparr>tx_status := EXECUTING, updated_at := clk k\<rparr>]\<rparr>)
            (Suc k) tid r)"
| "coroutine_step h clk c k (Sleeping tid r) = resume_loop clk c k tid r"
| "coroutine_step h clk c k (Gathering tid r sel) = resume_gather h clk c k tid r sel"
| "coroutine_step h clk c k Returned = (c, k, Returned)"

text \<open>
  \<^verbatim>\<open>process_transaction\<close> run with nothing else in between: the pieces one after the
  other, at most \<open>n\<close> of them; \<open>None\<close> when the coroutine has not returned by then.
\<close>

fun run_coroutine :: "handler \<Rightarrow> clock \<Rightarrow> nat \<Rightarrow> TransactionCoordinator \<Rightarrow> nat \<Rightarrow> coroutine \<Rightarrow> (TransactionCoordinator \<times> nat) option" where
  "run_coroutine h clk n c k Returned = Some (c, k)"
| "run_coroutine h clk 0 c k co = None"
| "run_coroutine h clk (Suc n) c k co =
     (case coroutine_step h clk c k co of (c', k', co') \<Rightarrow> run_coroutine h clk n c' k' co')"

definition process_transaction :: "handler \<Rightarrow> clock \<Rightarrow> nat \<Rightarrow> TransactionCoordinator \<Rightarrow> nat \<Rightarrow> string \<Rightarrow> (TransactionCoordinator \<times> nat) option" where
  "process_transaction h clk n c k tid = run_coroutine h clk n c k (NotStarted tid)"

subsection \<open>Cancelling and querying\<close>

text \<open>\<^verbatim>\<open>cancel_transaction\<close> has no \<^verbatim>\<open>await\<close> and runs in one piece; \<open>now\<close> is its clock read.\<close>

definition cancel_transaction :: "TransactionCoordinator \<Rightarrow> string \<Rightarrow> string \<Rightarrow> string \<Rightarrow> bool \<times> TransactionCoordinator" where
  "cancel_transaction c now tid reason =
     (case map_of (active_transactions c) tid of
        None \<Rightarrow> (False, c)
      | Some r \<Rightarrow>
          (let t = objs c ! r in
           if tx_status t = COMPLETED \<or> tx_status t = FAILED then (False, c)
           else
             (True,
              save_transaction_data
                (c\<lparr>objs := (objs c)[r := t\<lparr>tx_status := CANCELLED, updated_at := now,
                                           metadata := AList.update ''cancellation_reason'' (PStr reason) (metadata t)\<rparr>],
                   transaction_history := transaction_history c @ [r],
                   active_transactions := AList.delete tid (active_transactions c)\<rparr>))))"

text \<open>Python's \<^verbatim>\<open>str\<close> of a natural number, for the f-string of the progress.\<close>

function str_nat :: "nat \<Rightarrow> string" where
  "str_nat n = (if n < 10 then [''0123456789'' ! n] else str_nat (n div 10) @ [''0123456789'' ! (n mod 10)])"
  by pat_completeness auto
termination
  by (relation "measure id") auto

declare str_nat.simps [simp del]

datatype py_error = ZeroDivisionError

definition find_transaction :: "TransactionCoordinator \<Rightarrow> string \<Rightarrow> tx option" where
  "find_transaction c tid =
     (case map_of (active_transactions c) tid of
        Some r \<Rightarrow> Some (objs c ! r)
      | None \<Rightarrow> find (\<lambda>t. transaction_id t = tid) (history_objects c))"

definition next_step_summary :: "step \<Rightarrow> pyval" where
  "next_step_summary s =
     PDict [(''step_id'', PStr (step_id s)), (''agent'', PStr (agent_address s)),
            (''action'', PStr (action s)), (''status'', PStr (status_value (status s)))]"

text \<open>
  \<^verbatim>\<open>get_transaction_status\<close>: \<^verbatim>\<open>None\<close> for an id found nowhere, else the dict the
  function builds. The division by the number of steps raises for a transaction
  without steps.
\<close>

definition get_transaction_status :: "TransactionCoordinator \<Rightarrow> string \<Rightarrow> py_error + pydict option" where
  "get_transaction_status c tid =
     (case find_transaction c tid of
        None \<Rightarrow> Inr None
      | Some t \<Rightarrow>
          (let completed_steps = length (filter (\<lambda>s. status s = COMPLETED) (steps t));
               total_steps = length (steps t)
           in if total_steps = 0 then Inl ZeroDivisionError
              else Inr (Some
                [(''transaction_id'', PStr (transaction_id t)),
                 (''type'', PStr (type_value (transaction_type t))),
                 (''status'', PStr (status_value (tx_status t))),
                 (''progress'', PStr (str_nat completed_steps @ ''/'' @ str_nat total_steps)),
                 (''progress_percentage'', PFloat (real completed_steps / real total_steps * 100)),
                 (''participants'', PList (map PStr (participants t))),
                 (''total_value'', PFloat (total_value t)),
                 (''fees'', PDict (map (\<lambda>(name, v). (name, PFloat v)) (fees t))),
                 (''created_at'', PStr (created_at t)),
                 (''updated_at'', PStr (updated_at t)),
                 (''completed_at'', (case completed_at t of None \<Rightarrow> PNone | Some ts \<Rightarrow> PStr ts)),
                 (''next_steps'', PList (map next_step_summary (get_next_pending_steps t)))])))"

section \<open>Notions used in the statements\<close>

text \<open>
  The status a handler's outcome gives a step, and the step as the loop over the
  results leaves it (\<open>j\<close> is the number of the clock read that stamps a success).
\<close>

definition outcome_status :: "handler \<Rightarrow> step \<Rightarrow> TransactionStatus" where
  "outcome_status h s = (case h s of Inl msg \<Rightarrow> FAILED | Inr res \<Rightarrow> COMPLETED)"

definition mark_step :: "handler \<Rightarrow> clock \<Rightarrow> nat \<Rightarrow> step \<Rightarrow> step" where
  "mark_step h clk j s =
     (case h s of
        Inl msg \<Rightarrow> s\<lparr>status := FAILED, error_message := Some msg\<rparr>
      | Inr res \<Rightarrow> s\<lparr>status := COMPLETED, result := Some res, timestamp := Some (clk j)\<rparr>)"

text \<open>
  The transaction after the call of \<^verbatim>\<open>execute_transaction_steps\<close> on its ready set,
  and after the stamp of \<^verbatim>\<open>updated_at\<close> that follows the call in the loop.
\<close>

definition batch :: "handler \<Rightarrow> clock \<Rightarrow> nat \<Rightarrow> tx \<Rightarrow> tx" where
  "batch h clk k t = fst (execute_transaction_steps h clk k t (ready_flags t))"

definition after_batch :: "handler \<Rightarrow> clock \<Rightarrow> nat \<Rightarrow> tx \<Rightarrow> tx" where
  "after_batch h clk k t =
     (batch h clk k t)\<lparr>updated_at := clk (snd (execute_transaction_steps h clk k t (ready_flags t)))\<rparr>"

definition pending_count :: "tx \<Rightarrow> nat" where
  "pending_count t = length (filter (\<lambda>s. status s = PENDING) (steps t))"

text \<open>
  The dependency graph of a transaction: an edge from a dependency id to the id of the
  step that lists it. \<open>deps_closed\<close>: every listed dependency is the id of a step of the
  transaction. \<open>steps_pcf\<close>: every step is pending, completed or failed.
\<close>

definition dep_rel :: "tx \<Rightarrow> (string \<times> string) set" where
  "dep_rel t = {(d, step_id s) | d s. s \<in> set (steps t) \<and> d \<in> set (dependencies s)}"

definition deps_closed :: "tx \<Rightarrow> bool" where
  "deps_closed t =
     list_all (\<lambda>s. list_all (\<lambda>d. d \<in> set (map step_id (steps t))) (dependencies s)) (steps t)"

definition steps_pcf :: "tx \<Rightarrow> bool" where
  "steps_pcf t =
     list_all (\<lambda>s. status s = PENDING \<or> status s = COMPLETED \<or> status s = FAILED) (steps t)"

text \<open>
  The transaction object pass by pass: \<open>loop_state h clk m k t\<close> is the transaction (and
  the number of clock reads) after \<open>m\<close> passes through the loop body, or as the loop
  left it if it has ended before.
\<close>

fun loop_state :: "handler \<Rightarrow> clock \<Rightarrow> nat \<Rightarrow> nat \<Rightarrow> tx \<Rightarrow> tx \<times> nat" where
  "loop_state h clk 0 k t = (t, k)"
| "loop_state h clk (Suc m) k t =
     (if tx_status t \<noteq> EXECUTING then (t, k)
      else loop_state h clk m (snd (snd (loop_body h clk k t))) (fst (snd (loop_body h clk k t))))"

text \<open>
  No step has run before its dependencies: every step that is not pending has each of
  its dependency ids among the ids of the completed steps.
\<close>

definition executed_after_deps :: "tx \<Rightarrow> bool" where
  "executed_after_deps t =
     list_all (\<lambda>s. status s = PENDING \<or> list_all (\<lambda>d. d \<in> completed_step_ids t) (dependencies s))
       (steps t)"

text \<open>The ids and dependency lists of the steps, in the order of the steps.\<close>

definition id_deps :: "tx \<Rightarrow> (string \<times> string list) list" where
  "id_deps t = map (\<lambda>s. (step_id s, dependencies s)) (steps t)"


text \<open>Every step of every transaction object is pending, completed or failed.\<close>

definition all_steps_pcf :: "TransactionCoordinator \<Rightarrow> bool" where
  "all_steps_pcf c = list_all steps_pcf (objs c)"




subsection \<open>Sample inputs\<close>

text \<open>
  Handlers, a clock and transactions on which the statements below are evaluated:
  a handler that always returns, one that raises for one action, and transactions as
  \<^verbatim>\<open>process_transaction\<close> hands them to its loop (status executing).
\<close>

definition ok_handler :: handler where
  "ok_handler s = Inr [(''status'', PStr ''completed'')]"

definition failing_handler :: "string \<Rightarrow> handler" where
  "failing_handler a s =
     (if action s = a then Inl ''escrow service unavailable''
      else Inr [(''status'', PStr ''completed'')])"

definition sample_clock :: clock where
  "sample_clock k = ''T'' @ replicate k (CHR ''+'')"

definition sample_step :: "string \<Rightarrow> string \<Rightarrow> string list \<Rightarrow> step" where
  "sample_step sid act deps = new_TransactionStep sid ''trading_legacy_agent'' act [] PENDING (Some deps)"

definition sample_tx :: "step list \<Rightarrow> tx" where
  "sample_tx ss =
     \<lparr>transaction_id = ''tx_0'', transaction_type = NFT_PURCHASE, initiator_address = ''B'',
      participants = [''B'', ''S''], steps = ss, tx_status = EXECUTING, total_value = 100,
      fees = [], metadata = [], created_at = ''T'', updated_at = ''T'', completed_at = None\<rparr>"

definition one_step_tx :: tx where
  "one_step_tx = sample_tx [sample_step ''tx_0_step_1'' ''verify_valuation'' []]"

definition fork_tx :: tx where
  "fork_tx =
     sample_tx [sample_step ''tx_0_step_1'' ''verify_valuation'' [],
                sample_step ''tx_0_step_2'' ''setup_escrow'' [],
                sample_step ''tx_0_step_3'' ''execute_transfer'' [''tx_0_step_1'']]"

definition stuck_tx :: tx where
  "stuck_tx = sample_tx [sample_step ''tx_0_step_1'' ''verify_valuation'' [''tx_0_step_0'']]"



text \<open>
  Coordinators: one started without a data file; the same after a purchase was
  initiated (one active transaction \<^verbatim>\<open>tx_0\<close>, pending); and three states of a run in
  which the transaction is cancelled while the handlers of its first batch are running:
  the coroutine of \<^verbatim>\<open>process_transaction\<close> has run up to \<^verbatim>\<open>asyncio.gather\<close>
  (\<open>race_started\<close>), then \<^verbatim>\<open>cancel_transaction\<close> has run (\<open>race_cancelled\<close>), then the
  coroutine has continued with the results (\<open>race_resumed\<close>).
\<close>

definition empty_coordinator :: TransactionCoordinator where
  "empty_coordinator = new_TransactionCoordinator None"

definition purchase_coordinator :: TransactionCoordinator where
  "purchase_coordinator =
     snd (initiate_nft_purchase empty_coordinator ''0'' ''T'' ''B'' ''S'' ''X'' 100 None)"

definition race_started :: "TransactionCoordinator \<times> nat \<times> coroutine" where
  "race_started = coroutine_step ok_handler sample_clock purchase_coordinator 0 (NotStarted ''tx_0'')"

definition race_cancelled :: "bool \<times> TransactionCoordinator" where
  "race_cancelled = cancel_transaction (fst race_started) ''T!'' ''tx_0'' ''user requested''"









lemmas sample_defs =
  loop_body_def get_next_pending_steps_def completed_step_ids_def is_ready_def
  execute_transaction_steps_def ready_flags_def new_TransactionStep_def
  ok_handler_def failing_handler_def sample_clock_def sample_step_def sample_tx_def
  one_step_tx_def fork_tx_def stuck_tx_def

section \<open>A batch of steps\<close>

lemma update_length: "length (fst (update_step_statuses h clk k zs)) = length zs"
  by (induction zs arbitrary: k) (auto simp: case_prod_unfold split: sum.splits)

lemma update_status:
  "map status (fst (update_step_statuses h clk k zs)) =
   map (\<lambda>(s, b). if b then outcome_status h s else status s) zs"
  by (induction zs arbitrary: k) (auto simp: outcome_status_def case_prod_unfold split: sum.splits)

lemma update_step_id:
  "map step_id (fst (update_step_statuses h clk k zs)) = map (\<lambda>(s, b). step_id s) zs"
  by (induction zs arbitrary: k) (auto simp: case_prod_unfold split: sum.splits)

lemma update_dependencies:
  "map dependencies (fst (update_step_statuses h clk k zs)) = map (\<lambda>(s, b). dependencies s) zs"
  by (induction zs arbitrary: k) (auto simp: case_prod_unfold split: sum.splits)

lemma update_nth:
  "i < length zs \<Longrightarrow>
   \<exists>j. fst (update_step_statuses h clk k zs) ! i =
     (if snd (zs ! i) then mark_step h clk j (fst (zs ! i)) else fst (zs ! i))"
proof (induction zs arbitrary: k i)
  case Nil
  then show ?case by simp
next
  case (Cons z zs)
  obtain s b where z: "z = (s, b)" by (cases z)
  show ?case
  proof (cases i)
    case 0
    then show ?thesis using z
      by (auto simp: mark_step_def case_prod_unfold split: sum.splits)
  next
    case (Suc i')
    then have "i' < length zs" using Cons.prems by simp
    from Cons.IH[OF this] show ?thesis using z Suc
      by (auto simp: case_prod_unfold split: sum.splits)
  qed
qed

lemma zip_map_self: "zip xs (map f xs) = map (\<lambda>x. (x, f x)) xs"
  by (induction xs) auto

lemma batch_length: "length (steps (batch h clk k t)) = length (steps t)"
  by (simp add: batch_def execute_transaction_steps_def case_prod_unfold update_length ready_flags_def)

lemma batch_status:
  "map status (steps (batch h clk k t)) =
   map (\<lambda>s. if is_ready (completed_step_ids t) s then outcome_status h s else status s) (steps t)"
  by (simp add: batch_def execute_transaction_steps_def case_prod_unfold update_status ready_flags_def
        zip_map_self comp_def)

lemma batch_step_id: "map step_id (steps (batch h clk k t)) = map step_id (steps t)"
  by (simp add: batch_def execute_transaction_steps_def case_prod_unfold update_step_id ready_flags_def
        zip_map_self comp_def)

lemma batch_dependencies: "map dependencies (steps (batch h clk k t)) = map dependencies (steps t)"
  by (simp add: batch_def execute_transaction_steps_def case_prod_unfold update_dependencies
        ready_flags_def zip_map_self comp_def)

lemma batch_nth:
  assumes "i < length (steps t)"
  shows "\<exists>j. steps (batch h clk k t) ! i =
     (if is_ready (completed_step_ids t) (steps t ! i) then mark_step h clk j (steps t ! i)
      else steps t ! i)"
proof -
  let ?zs = "zip (steps t) (ready_flags t)"
  have len: "i < length ?zs" using assms by (simp add: ready_flags_def)
  have "?zs ! i = (steps t ! i, is_ready (completed_step_ids t) (steps t ! i))"
    using assms by (simp add: ready_flags_def)
  then have "fst (?zs ! i) = steps t ! i"
    and "snd (?zs ! i) = is_ready (completed_step_ids t) (steps t ! i)"
    by simp_all
  with update_nth[OF len, of h clk k] show ?thesis
    by (auto simp: batch_def execute_transaction_steps_def case_prod_unfold)
qed

lemma batch_other_fields:
  "tx_status (batch h clk k t) = tx_status t"
  "transaction_id (batch h clk k t) = transaction_id t"
  "metadata (batch h clk k t) = metadata t"
  by (simp_all add: batch_def execute_transaction_steps_def case_prod_unfold)

lemma after_batch_simps:
  "steps (after_batch h clk k t) = steps (batch h clk k t)"
  "tx_status (after_batch h clk k t) = tx_status t"
  by (simp_all add: after_batch_def batch_other_fields)

lemma count_decreases_le:
  "(\<And>x. x \<in> set xs \<Longrightarrow> rdy x \<Longrightarrow> st x = PENDING) \<Longrightarrow> (\<And>x. out x \<noteq> PENDING) \<Longrightarrow>
   length (filter (\<lambda>s. s = PENDING) (map (\<lambda>x. if rdy x then out x else st x) xs))
     \<le> length (filter (\<lambda>s. s = PENDING) (map st xs))"
  by (induction xs) auto

lemma count_decreases:
  "(\<And>x. x \<in> set xs \<Longrightarrow> rdy x \<Longrightarrow> st x = PENDING) \<Longrightarrow> (\<And>x. out x \<noteq> PENDING) \<Longrightarrow>
   \<exists>x\<in>set xs. rdy x \<Longrightarrow>
   length (filter (\<lambda>s. s = PENDING) (map (\<lambda>x. if rdy x then out x else st x) xs))
     < length (filter (\<lambda>s. s = PENDING) (map st xs))"
proof (induction xs)
  case Nil
  then show ?case by simp
next
  case (Cons x xs)
  have le: "length (filter (\<lambda>s. s = PENDING) (map (\<lambda>x. if rdy x then out x else st x) xs))
     \<le> length (filter (\<lambda>s. s = PENDING) (map st xs))"
    by (rule count_decreases_le) (use Cons.prems in auto)
  show ?case
  proof (cases "rdy x")
    case True
    then show ?thesis using le Cons.prems(1)[of x] Cons.prems(2)[of x] by auto
  next
    case False
    then have "\<exists>x\<in>set xs. rdy x" using Cons.prems(3) by auto
    then have "length (filter (\<lambda>s. s = PENDING) (map (\<lambda>x. if rdy x then out x else st x) xs))
     < length (filter (\<lambda>s. s = PENDING) (map st xs))"
      by (intro Cons.IH) (use Cons.prems in auto)
    then show ?thesis using False by auto
  qed
qed

lemma pending_count_alt:
  "pending_count t = length (filter (\<lambda>s. s = PENDING) (map status (steps t)))"
  by (simp add: pending_count_def filter_map comp_def)

lemma outcome_status_not_pending: "outcome_status h s \<noteq> PENDING"
  by (simp add: outcome_status_def split: sum.splits)

lemma batch_pending_count:
  assumes "get_next_pending_steps t \<noteq> []"
  shows "pending_count (batch h clk k t) < pending_count t"
proof -
  from assms have ex: "\<exists>x\<in>set (steps t). is_ready (completed_step_ids t) x"
    by (auto simp: get_next_pending_steps_def filter_empty_conv)
  show ?thesis
    unfolding pending_count_alt batch_status
    by (rule count_decreases) (use ex in \<open>auto simp: is_ready_def outcome_status_not_pending\<close>)
qed

section \<open>The loop\<close>

lemma loop_body_run:
  "get_next_pending_steps t \<noteq> [] \<Longrightarrow>
   loop_body h clk k t =
     (False, after_batch h clk k t, Suc (snd (execute_transaction_steps h clk k t (ready_flags t))))"
  by (simp add: loop_body_def after_batch_def batch_def case_prod_unfold)

lemma loop_body_idle:
  "get_next_pending_steps t = [] \<Longrightarrow>
   loop_body h clk k t =
        (if filter (\<lambda>s. status s = FAILED) (steps t) \<noteq> [] then
           (True, t\<lparr>tx_status := FAILED\<rparr>, k)
         else if length (filter (\<lambda>s. status s = COMPLETED) (steps t)) = length (steps t) then
           (True, t\<lparr>tx_status := COMPLETED, completed_at := Some (clk k)\<rparr>, Suc k)
         else (False, t, k))"
  by (simp add: loop_body_def)

text \<open>
  Whatever the loop returns was produced by a pass that found the ready set empty, in a
  transaction that every property kept by a batch still holds of.
\<close>

lemma process_loop_final:
  assumes "process_loop h clk n k t = Some (t', k')"
    and "tx_status t = EXECUTING"
    and "I t"
    and step: "\<And>t k. I t \<Longrightarrow> tx_status t = EXECUTING \<Longrightarrow> get_next_pending_steps t \<noteq> [] \<Longrightarrow>
                I (after_batch h clk k t)"
  shows "\<exists>t0 k0. I t0 \<and> tx_status t0 = EXECUTING \<and> get_next_pending_steps t0 = [] \<and>
                 loop_body h clk k0 t0 = (True, t', k')"
  using assms(1-3)
proof (induction n arbitrary: k t)
  case 0
  then show ?case by simp
next
  case (Suc n)
  show ?case
  proof (cases "get_next_pending_steps t = []")
    case True
    show ?thesis
    proof (cases "fst (loop_body h clk k t)")
      case True
      with Suc.prems \<open>get_next_pending_steps t = []\<close> show ?thesis
        by (intro exI[of _ t] exI[of _ k]) (auto simp: case_prod_unfold prod_eq_iff split: bool.splits)
    next
      case False
      with \<open>get_next_pending_steps t = []\<close> have lb: "loop_body h clk k t = (False, t, k)"
        by (auto simp: loop_body_idle split: if_splits)
      with Suc.prems have "process_loop h clk n k t = Some (t', k')" by simp
      from Suc.IH[OF this Suc.prems(2,3)] show ?thesis .
    qed
  next
    case False
    note lb = loop_body_run[OF False, of h clk k]
    with Suc.prems have run:
      "process_loop h clk n (Suc (snd (execute_transaction_steps h clk k t (ready_flags t))))
         (after_batch h clk k t) = Some (t', k')" by simp
    have "I (after_batch h clk k t)" using step Suc.prems False by blast
    from Suc.IH[OF run _ this] Suc.prems(2) show ?thesis by (simp add: after_batch_simps)
  qed
qed

text \<open>
  The loop returns within one pass more than there are pending steps, provided a pass
  that finds the ready set empty always breaks.
\<close>

lemma process_loop_terminates:
  assumes "tx_status t = EXECUTING"
    and "pending_count t < n"
    and "I t"
    and step: "\<And>t k. I t \<Longrightarrow> tx_status t = EXECUTING \<Longrightarrow> get_next_pending_steps t \<noteq> [] \<Longrightarrow>
                I (after_batch h clk k t)"
    and nowait: "\<And>t k. I t \<Longrightarrow> get_next_pending_steps t = [] \<Longrightarrow> fst (loop_body h clk k t)"
  shows "\<exists>t' k'. process_loop h clk n k t = Some (t', k')"
  using assms(1-3)
proof (induction n arbitrary: k t)
  case 0
  then show ?case by simp
next
  case (Suc n)
  show ?case
  proof (cases "get_next_pending_steps t = []")
    case True
    from nowait[OF Suc.prems(3) True, of k] Suc.prems(1) show ?thesis
      by (auto simp: case_prod_unfold split: bool.splits)
  next
    case False
    note lb = loop_body_run[OF False, of h clk k]
    have "pending_count (after_batch h clk k t) < n"
      using batch_pending_count[OF False, of h clk k] Suc.prems(2)
      by (simp add: pending_count_def after_batch_simps)
    moreover have "I (after_batch h clk k t)" using step Suc.prems False by blast
    moreover have "tx_status (after_batch h clk k t) = EXECUTING"
      using Suc.prems(1) by (simp add: after_batch_simps)
    ultimately obtain t' k' where
      "process_loop h clk n (Suc (snd (execute_transaction_steps h clk k t (ready_flags t))))
         (after_batch h clk k t) = Some (t', k')"
      using Suc.IH by blast
    then show ?thesis using lb Suc.prems(1) by simp
  qed
qed

section \<open>The loop as the coroutine runs it\<close>

text \<open>
  \<open>process_loop\<close> is the \<^verbatim>\<open>while\<close> loop of \<^verbatim>\<open>process_transaction\<close> on the transaction
  alone. Run without interruption, the coroutine does to the object it holds what
  \<open>process_loop\<close> does to a transaction, saves after each batch, and ends with the
  statements after the loop: whenever the loop returns within \<open>m\<close> passes, the
  coroutine returns within \<open>2 * m\<close> pieces.
\<close>

lemma run_coroutine_not_started:
  "map_of (active_transactions c) tid = Some r \<Longrightarrow>
   run_coroutine h clk (Suc n) c k (NotStarted tid) =
     run_coroutine h clk (Suc n)
       (c\<lparr>objs := (objs c)[r := (objs c ! r)\<lparr>tx_status := EXECUTING, updated_at := clk k\<rparr>]\<rparr>)
       (Suc k) (Sleeping tid r)"
  by simp

lemma run_coroutine_loop:
  "process_loop h clk m k (objs c ! r) = Some (t', k') \<Longrightarrow> r < length (objs c) \<Longrightarrow>
   \<exists>n df. n \<le> 2 * m \<and> run_coroutine h clk n c k (Sleeping tid r) =
      Some (move_to_history clk (c\<lparr>objs := (objs c)[r := t'], data_file := df\<rparr>) k' tid r)"
proof (induction m arbitrary: c k)
  case 0
  then show ?case by simp
next
  case (Suc m)
  let ?t = "objs c ! r"
  have same: "c\<lparr>objs := (objs c)[r := ?t], data_file := data_file c\<rparr> = c" by simp
  show ?case
  proof (cases "tx_status ?t = EXECUTING")
    case False
    with Suc.prems have eq: "t' = ?t" "k' = k" by auto
    have "run_coroutine h clk (Suc 0) c k (Sleeping tid r) = Some (move_to_history clk c k tid r)"
      using False by (simp add: resume_loop_def Let_def split: prod.splits)
    then show ?thesis unfolding eq using same
      by (intro exI[of _ "Suc 0"] exI[of _ "data_file c"]) simp
  next
    case ex: True
    show ?thesis
    proof (cases "get_next_pending_steps ?t = []")
      case idle: True
      note lb = loop_body_idle[OF idle, of h clk k]
      show ?thesis
      proof (cases "filter (\<lambda>s. status s = FAILED) (steps ?t) \<noteq> []")
        case True
        with Suc.prems ex lb have eq: "t' = ?t\<lparr>tx_status := FAILED\<rparr>" "k' = k" by auto
        have "run_coroutine h clk (Suc 0) c k (Sleeping tid r) =
                Some (move_to_history clk (c\<lparr>objs := (objs c)[r := ?t\<lparr>tx_status := FAILED\<rparr>]\<rparr>) k tid r)"
          using ex idle True by (simp add: resume_loop_def Let_def split: prod.splits)
        then show ?thesis unfolding eq
          by (intro exI[of _ "Suc 0"] exI[of _ "data_file c"]) simp
      next
        case nofail: False
        show ?thesis
        proof (cases "length (filter (\<lambda>s. status s = COMPLETED) (steps ?t)) = length (steps ?t)")
          case True
          with Suc.prems ex lb nofail
          have eq: "t' = ?t\<lparr>tx_status := COMPLETED, completed_at := Some (clk k)\<rparr>" "k' = Suc k"
            by auto
          have "run_coroutine h clk (Suc 0) c k (Sleeping tid r) =
                  Some (move_to_history clk
                     (c\<lparr>objs := (objs c)[r := ?t\<lparr>tx_status := COMPLETED, completed_at := Some (clk k)\<rparr>]\<rparr>)
                     (Suc k) tid r)"
            using ex idle nofail True by (simp add: resume_loop_def Let_def split: prod.splits)
          then show ?thesis unfolding eq
            by (intro exI[of _ "Suc 0"] exI[of _ "data_file c"]) simp
        next
          case False
          with Suc.prems ex lb nofail have "process_loop h clk m k ?t = Some (t', k')" by auto
          from Suc.IH[OF this Suc.prems(2)] obtain n df where
            n: "n \<le> 2 * m"
            and run: "run_coroutine h clk n c k (Sleeping tid r) =
              Some (move_to_history clk (c\<lparr>objs := (objs c)[r := t'], data_file := df\<rparr>) k' tid r)"
            by blast
          have "run_coroutine h clk (Suc n) c k (Sleeping tid r) =
                  run_coroutine h clk n c k (Sleeping tid r)"
            using ex idle nofail False by (simp add: resume_loop_def Let_def)
          with run n show ?thesis
            by (intro exI[of _ "Suc n"] exI[of _ df]) simp
        qed
      qed
    next
      case busy: False
      let ?k1 = "snd (execute_transaction_steps h clk k ?t (ready_flags ?t))"
      let ?t1 = "after_batch h clk k ?t"
      let ?c1 = "save_transaction_data (c\<lparr>objs := (objs c)[r := ?t1]\<rparr>)"
      note lb = loop_body_run[OF busy, of h clk k]
      with Suc.prems ex have pl: "process_loop h clk m (Suc ?k1) ?t1 = Some (t', k')" by simp
      have o1: "objs ?c1 = (objs c)[r := ?t1]" by (simp add: save_transaction_data_def)
      have t1: "objs ?c1 ! r = ?t1" using Suc.prems(2) by (simp add: o1)
      have len: "r < length (objs ?c1)" using Suc.prems(2) by (simp add: o1)
      from pl have "process_loop h clk m (Suc ?k1) (objs ?c1 ! r) = Some (t', k')" by (simp only: t1)
      from Suc.IH[OF this len] obtain n df where
        n: "n \<le> 2 * m"
        and run: "run_coroutine h clk n ?c1 (Suc ?k1) (Sleeping tid r) =
          Some (move_to_history clk (?c1\<lparr>objs := (objs ?c1)[r := t'], data_file := df\<rparr>) k' tid r)"
        by blast
      have c1: "?c1\<lparr>objs := (objs ?c1)[r := t'], data_file := df\<rparr> =
                c\<lparr>objs := (objs c)[r := t'], data_file := df\<rparr>"
        by (simp add: save_transaction_data_def)
      have "run_coroutine h clk (Suc (Suc n)) c k (Sleeping tid r) =
              run_coroutine h clk n ?c1 (Suc ?k1) (Sleeping tid r)"
        using ex busy
        by (simp add: resume_loop_def resume_gather_def Let_def after_batch_def batch_def case_prod_unfold)
      with run n show ?thesis unfolding c1
        by (intro exI[of _ "Suc (Suc n)"] exI[of _ df]) simp
    qed
  qed
qed

lemma process_transaction_loop:
  assumes act: "map_of (active_transactions c) tid = Some r" and r: "r < length (objs c)"
    and loop: "process_loop h clk m (Suc k)
                 ((objs c ! r)\<lparr>tx_status := EXECUTING, updated_at := clk k\<rparr>) = Some (t', k')"
  shows "\<exists>n df. n \<le> 2 * m \<and> process_transaction h clk n c k tid =
           Some (move_to_history clk (c\<lparr>objs := (objs c)[r := t'], data_file := df\<rparr>) k' tid r)"
proof -
  let ?c0 = "c\<lparr>objs := (objs c)[r := (objs c ! r)\<lparr>tx_status := EXECUTING, updated_at := clk k\<rparr>]\<rparr>"
  have t0: "objs ?c0 ! r = (objs c ! r)\<lparr>tx_status := EXECUTING, updated_at := clk k\<rparr>"
    using r by simp
  have len: "r < length (objs ?c0)" using r by simp
  from loop have "process_loop h clk m (Suc k) (objs ?c0 ! r) = Some (t', k')" by (simp only: t0)
  from run_coroutine_loop[OF this len, of tid] obtain n df where
    n: "n \<le> 2 * m"
    and run: "run_coroutine h clk n ?c0 (Suc k) (Sleeping tid r) =
      Some (move_to_history clk (?c0\<lparr>objs := (objs ?c0)[r := t'], data_file := df\<rparr>) k' tid r)"
    by blast
  from run obtain n' where n': "n = Suc n'" by (cases n) auto
  have c0: "?c0\<lparr>objs := (objs ?c0)[r := t'], data_file := df\<rparr> =
            c\<lparr>objs := (objs c)[r := t'], data_file := df\<rparr>" by simp
  have "process_transaction h clk n c k tid = run_coroutine h clk n ?c0 (Suc k) (Sleeping tid r)"
    unfolding n' process_transaction_def using act by (rule run_coroutine_not_started)
  with run n show ?thesis unfolding c0
    by (intro exI[of _ n] exI[of _ df]) simp
qed

section \<open>The purchase plan\<close>

lemma purchase_step_ids:
  "map step_id (purchase_steps tid b s n p) =
     [tid @ ''_step_1'', tid @ ''_step_2'', tid @ ''_step_3'', tid @ ''_step_4'', tid @ ''_step_5'']"
  by (simp add: purchase_steps_def new_TransactionStep_def)

lemma purchase_step_deps:
  "map dependencies (purchase_steps tid b s n p) =
     [[], [], [tid @ ''_step_1'', tid @ ''_step_2''], [tid @ ''_step_3''], [tid @ ''_step_4'']]"
  by (simp add: purchase_steps_def new_TransactionStep_def)

lemma purchase_step_actions:
  "map action (purchase_steps tid b s n p) =
     [''verify_valuation'', ''verify_authenticity'', ''setup_escrow'', ''execute_transfer'',
      ''finalize_transaction'']"
  by (simp add: purchase_steps_def new_TransactionStep_def)

lemma purchase_step_status:
  "map status (purchase_steps tid b s n p) = [PENDING, PENDING, PENDING, PENDING, PENDING]"
  by (simp add: purchase_steps_def new_TransactionStep_def)

lemma map_of_update_same: "map_of (AList.update k v al) k = Some v"
  by (simp add: update_conv')

text \<open>
  C8. \<^verbatim>\<open>initiate_nft_purchase\<close> returns the id \<^verbatim>\<open>tx_\<close> followed by the uuid prefix and
  registers under it a new transaction object of status pending with exactly five steps:
  steps 1 (verify valuation) and 2 (verify authenticity) without dependencies, step 3
  (set up escrow) depending on steps 1 and 2, step 4 (execute transfer) on step 3, step 5
  (finalize) on step 4, all five pending.
\<close>

theorem initiate_nft_purchase_plan:
  "(let (tid, c') = initiate_nft_purchase c u now buyer seller nft price md;
        t = objs c' ! length (objs c)
    in tid = ''tx_'' @ u
       \<and> map_of (active_transactions c') tid = Some (length (objs c))
       \<and> length (objs c') = Suc (length (objs c))
       \<and> transaction_id t = tid
       \<and> tx_status t = PENDING
       \<and> map step_id (steps t) =
           [tid @ ''_step_1'', tid @ ''_step_2'', tid @ ''_step_3'', tid @ ''_step_4'', tid @ ''_step_5'']
       \<and> map action (steps t) =
           [''verify_valuation'', ''verify_authenticity'', ''setup_escrow'', ''execute_transfer'',
            ''finalize_transaction'']
       \<and> map dependencies (steps t) =
           [[], [], [tid @ ''_step_1'', tid @ ''_step_2''], [tid @ ''_step_3''], [tid @ ''_step_4'']]
       \<and> map status (steps t) = [PENDING, PENDING, PENDING, PENDING, PENDING])"
  by (simp add: initiate_nft_purchase_def register_transaction_def save_transaction_data_def Let_def
      map_of_update_same purchase_step_ids purchase_step_deps purchase_step_actions purchase_step_status)

section \<open>Status of a transaction and statuses of its steps\<close>

lemma length_filter_all: "length (filter P xs) = length xs \<longleftrightarrow> list_all P xs"
proof (induction xs)
  case Nil
  then show ?case by simp
next
  case (Cons x xs)
  show ?case using Cons length_filter_le[of P xs] by (auto simp del: length_filter_le)
qed

lemma process_loop_result:
  assumes "process_loop h clk n k t = Some (t', k')" and "tx_status t = EXECUTING"
  shows "(tx_status t' = COMPLETED \<longleftrightarrow> list_all (\<lambda>s. status s = COMPLETED) (steps t'))
       \<and> (tx_status t' = FAILED \<longleftrightarrow> list_ex (\<lambda>s. status s = FAILED) (steps t'))
       \<and> (tx_status t' = COMPLETED \<or> tx_status t' = FAILED)"
proof -
  from process_loop_final[where I = "\<lambda>t. True", OF assms(1,2)]
  obtain t0 k0 where idle: "get_next_pending_steps t0 = []"
    and lb: "loop_body h clk k0 t0 = (True, t', k')" by auto
  from lb idle show ?thesis
    by (auto simp: loop_body_idle length_filter_all list_ex_iff filter_empty_conv list_all_iff
             split: if_splits)
qed





section \<open>Progress of the loop\<close>


lemma update_id_deps:
  "map (\<lambda>s. (step_id s, dependencies s)) (fst (update_step_statuses h clk k zs)) =
   map (\<lambda>(s, b). (step_id s, dependencies s)) zs"
  by (induction zs arbitrary: k) (auto simp: case_prod_unfold split: sum.splits)

lemma batch_id_deps: "id_deps (batch h clk k t) = id_deps t"
  by (simp add: id_deps_def batch_def execute_transaction_steps_def case_prod_unfold update_id_deps
        ready_flags_def zip_map_self comp_def)

lemma after_batch_id_deps: "id_deps (after_batch h clk k t) = id_deps t"
  by (simp add: id_deps_def after_batch_simps batch_id_deps[unfolded id_deps_def])

lemma dep_rel_id_deps: "dep_rel t = {(d, i) | d i ds. (i, ds) \<in> set (id_deps t) \<and> d \<in> set ds}"
  by (auto simp: dep_rel_def id_deps_def)

lemma deps_closed_id_deps:
  "deps_closed t \<longleftrightarrow> (\<forall>(i, ds) \<in> set (id_deps t). \<forall>d \<in> set ds. d \<in> fst ` set (id_deps t))"
  by (force simp: deps_closed_def id_deps_def list_all_iff)


lemma after_batch_dep_rel: "dep_rel (after_batch h clk k t) = dep_rel t"
  by (simp add: dep_rel_id_deps after_batch_id_deps)

lemma after_batch_deps_closed: "deps_closed (after_batch h clk k t) = deps_closed t"
  by (simp add: deps_closed_id_deps after_batch_id_deps)

lemma after_batch_step_ids: "map step_id (steps (after_batch h clk k t)) = map step_id (steps t)"
  by (simp add: after_batch_simps batch_step_id)

lemma outcome_status_cases: "outcome_status h s = COMPLETED \<or> outcome_status h s = FAILED"
  by (simp add: outcome_status_def split: sum.splits)

lemma steps_pcf_alt:
  "steps_pcf t \<longleftrightarrow> (\<forall>st \<in> set (map status (steps t)). st = PENDING \<or> st = COMPLETED \<or> st = FAILED)"
  by (auto simp: steps_pcf_def list_all_iff)

lemma after_batch_steps_pcf: "steps_pcf t \<Longrightarrow> steps_pcf (after_batch h clk k t)"
  unfolding steps_pcf_alt after_batch_simps batch_status
  using outcome_status_cases by (auto simp: is_ready_def)

lemma finite_dep_rel: "finite (dep_rel t)"
proof -
  have "dep_rel t \<subseteq> (\<Union>s \<in> set (steps t). set (dependencies s)) \<times> step_id ` set (steps t)"
    by (auto simp: dep_rel_def)
  moreover have "finite ((\<Union>s \<in> set (steps t). set (dependencies s)) \<times> step_id ` set (steps t))"
    by simp
  ultimately show ?thesis by (rule finite_subset)
qed

lemma idle_all_completed:
  assumes acyc: "acyclic (dep_rel t)" and closed: "deps_closed t" and pcf: "steps_pcf t"
    and idle: "get_next_pending_steps t = []"
    and nofail: "filter (\<lambda>s. status s = FAILED) (steps t) = []"
  shows "list_all (\<lambda>s. status s = COMPLETED) (steps t)"
proof (rule ccontr)
  assume "\<not> list_all (\<lambda>s. status s = COMPLETED) (steps t)"
  then obtain s1 where s1: "s1 \<in> set (steps t)" "status s1 \<noteq> COMPLETED"
    by (auto simp: list_all_iff)
  have st: "\<And>s. s \<in> set (steps t) \<Longrightarrow> status s = PENDING \<or> status s = COMPLETED"
    using pcf nofail by (auto simp: steps_pcf_def list_all_iff filter_empty_conv)
  let ?Q = "{step_id s | s. s \<in> set (steps t) \<and> status s = PENDING}"
  have "wf (dep_rel t)" using finite_dep_rel acyc by (rule finite_acyclic_wf)
  moreover have "step_id s1 \<in> ?Q" using s1 st by blast
  ultimately obtain z where z: "z \<in> ?Q" and zmin: "\<And>y. (y, z) \<in> dep_rel t \<Longrightarrow> y \<notin> ?Q"
    by (rule wfE_min) blast
  from z obtain s0 where s0: "s0 \<in> set (steps t)" "status s0 = PENDING" "z = step_id s0" by blast
  have "d \<in> completed_step_ids t" if d: "d \<in> set (dependencies s0)" for d
  proof -
    have "(d, z) \<in> dep_rel t" using s0 d by (auto simp: dep_rel_def)
    then have notQ: "d \<notin> ?Q" by (rule zmin)
    from closed s0(1) d have "d \<in> step_id ` set (steps t)"
      by (auto simp: deps_closed_def list_all_iff)
    then obtain s' where s': "s' \<in> set (steps t)" "step_id s' = d" by auto
    with notQ have "status s' \<noteq> PENDING" by blast
    with st[OF s'(1)] have "status s' = COMPLETED" by simp
    with s' show ?thesis by (auto simp: completed_step_ids_def)
  qed
  then have "is_ready (completed_step_ids t) s0"
    using s0 by (simp add: is_ready_def list_all_iff)
  with s0(1) have "get_next_pending_steps t \<noteq> []"
    by (auto simp: get_next_pending_steps_def filter_empty_conv)
  with idle show False by simp
qed

lemma pending_count_le: "pending_count t \<le> length (steps t)"
  by (simp add: pending_count_def)

text \<open>
  C6, as the code has it. For a transaction handed to the loop whose dependency graph is
  acyclic, whose every listed dependency is the id of one of its steps and whose steps are
  all pending, completed or failed, the loop returns with status completed or failed
  within one pass more than the transaction has steps: each pass but the last runs the
  handler of at least one pending step, the last finds the ready set empty and sets the
  status.
\<close>

theorem process_loop_progress:
  assumes "tx_status t = EXECUTING" and "acyclic (dep_rel t)" and "deps_closed t" and "steps_pcf t"
    and "length (steps t) < n"
  shows "\<exists>t' k'. process_loop h clk n k t = Some (t', k')
           \<and> (tx_status t' = COMPLETED \<or> tx_status t' = FAILED)"
proof -
  let ?I = "\<lambda>t. acyclic (dep_rel t) \<and> deps_closed t \<and> steps_pcf t"
  have "\<exists>t' k'. process_loop h clk n k t = Some (t', k')"
  proof (rule process_loop_terminates[where I = ?I])
    show "tx_status t = EXECUTING" by fact
    show "pending_count t < n" using pending_count_le[of t] assms(5) by simp
    show "?I t" using assms by simp
  next
    fix t k assume "?I t"
    then show "?I (after_batch h clk k t)"
      by (simp add: after_batch_dep_rel after_batch_deps_closed after_batch_steps_pcf)
  next
    fix t k assume I: "?I t" and idle: "get_next_pending_steps t = []"
    show "fst (loop_body h clk k t)"
    proof (cases "filter (\<lambda>s. status s = FAILED) (steps t) = []")
      case True
      with idle_all_completed[of t] I idle
      have "list_all (\<lambda>s. status s = COMPLETED) (steps t)" by simp
      then show ?thesis using idle True by (simp add: loop_body_idle length_filter_all)
    next
      case False
      then show ?thesis using idle by (simp add: loop_body_idle)
    qed
  qed
  then obtain t' k' where r: "process_loop h clk n k t = Some (t', k')" by blast
  with process_loop_result[OF r assms(1)] show ?thesis by blast
qed

lemma acyclic_no_edges: "acyclic {}"
  by (simp add: acyclic_def)

lemma stuck_forever: "process_loop h clk n k stuck_tx = None"
  by (induction n arbitrary: k) (simp_all add: sample_defs)

text \<open>
  C6 as stated fails for a dependency that is no step of the transaction: the graph of
  \<open>stuck_tx\<close> (one pending step that lists an id no step has) is acyclic, its step is
  never ready, never failed and never completed, and the loop sleeps and continues for
  ever.
\<close>

theorem progress_counterexample:
  "acyclic (dep_rel stuck_tx) \<and> tx_status stuck_tx = EXECUTING
   \<and> map status (steps stuck_tx) = [PENDING]
   \<and> process_loop ok_handler sample_clock 1000 0 stuck_tx = None"
  by (simp add: stuck_forever) (simp add: sample_defs dep_rel_def acyclic_insert acyclic_no_edges)

lemma dep_rel_concat:
  "dep_rel t = set (concat (map (\<lambda>s. map (\<lambda>d. (d, step_id s)) (dependencies s)) (steps t)))"
  by (auto simp: dep_rel_def)

lemma fork_dep_rel: "dep_rel fork_tx = {(''tx_0_step_1'', ''tx_0_step_3'')}"
  by (simp add: dep_rel_concat sample_defs)

theorem process_loop_progress_witness:
  "tx_status fork_tx = EXECUTING \<and> acyclic (dep_rel fork_tx) \<and> deps_closed fork_tx
   \<and> steps_pcf fork_tx \<and> length (steps fork_tx) < 4
   \<and> (\<exists>t' k'. process_loop ok_handler sample_clock 4 0 fork_tx = Some (t', k')
           \<and> (tx_status t' = COMPLETED \<or> tx_status t' = FAILED))"
proof -
  have h1: "tx_status fork_tx = EXECUTING" by (simp add: sample_defs)
  have h2: "acyclic (dep_rel fork_tx)" by (simp add: fork_dep_rel acyclic_insert acyclic_no_edges)
  have h3: "deps_closed fork_tx" by (simp add: deps_closed_def sample_defs)
  have h4: "steps_pcf fork_tx" by (simp add: steps_pcf_def sample_defs)
  have h5: "length (steps fork_tx) < 4" by (simp add: sample_defs)
  from process_loop_progress[OF h1 h2 h3 h4 h5, of ok_handler sample_clock 0] h1 h2 h3 h4 h5
  show ?thesis by blast
qed


section \<open>Dependency order\<close>

lemma loop_state_invariant:
  assumes "I t"
    and batch: "\<And>t k. I t \<Longrightarrow> tx_status t = EXECUTING \<Longrightarrow> get_next_pending_steps t \<noteq> [] \<Longrightarrow>
                  I (after_batch h clk k t)"
    and steps_only: "\<And>t t'. I t \<Longrightarrow> steps t' = steps t \<Longrightarrow> I t'"
  shows "I (fst (loop_state h clk m k t))"
  using assms(1)
proof (induction m arbitrary: k t)
  case 0
  then show ?case by simp
next
  case (Suc m)
  show ?case
  proof (cases "tx_status t = EXECUTING")
    case False
    then show ?thesis using Suc.prems by simp
  next
    case True
    have "I (fst (snd (loop_body h clk k t)))"
    proof (cases "get_next_pending_steps t = []")
      case True
      have "steps (fst (snd (loop_body h clk k t))) = steps t"
        using True by (simp add: loop_body_idle)
      with steps_only[OF Suc.prems] show ?thesis by blast
    next
      case False
      with batch[OF Suc.prems True False, of k] show ?thesis by (simp add: loop_body_run)
    qed
    from Suc.IH[OF this] True show ?thesis by simp
  qed
qed

lemma after_batch_nth:
  assumes "i < length (steps t)"
  shows "\<exists>j. steps (after_batch h clk k t) ! i =
     (if is_ready (completed_step_ids t) (steps t ! i) then mark_step h clk j (steps t ! i)
      else steps t ! i)"
  using batch_nth[OF assms] by (simp add: after_batch_simps)

lemma after_batch_length: "length (steps (after_batch h clk k t)) = length (steps t)"
  by (simp add: after_batch_simps batch_length)

lemma after_batch_status_nth:
  assumes "i < length (steps t)"
  shows "status (steps (after_batch h clk k t) ! i) =
     (if is_ready (completed_step_ids t) (steps t ! i) then outcome_status h (steps t ! i)
      else status (steps t ! i))"
proof -
  have "status (steps (after_batch h clk k t) ! i) = map status (steps (after_batch h clk k t)) ! i"
    using assms by (simp add: after_batch_length)
  also have "\<dots> = (if is_ready (completed_step_ids t) (steps t ! i) then outcome_status h (steps t ! i)
      else status (steps t ! i))"
    using assms by (simp add: after_batch_simps batch_status)
  finally show ?thesis .
qed

lemma completed_ids_nth:
  "d \<in> completed_step_ids t \<longleftrightarrow> (\<exists>i<length (steps t). step_id (steps t ! i) = d \<and> status (steps t ! i) = COMPLETED)"
  by (auto simp: completed_step_ids_def in_set_conv_nth)

lemma step_id_nth_id_deps:
  "i < length (steps t) \<Longrightarrow> step_id (steps t ! i) = fst (id_deps t ! i)"
  "i < length (steps t) \<Longrightarrow> dependencies (steps t ! i) = snd (id_deps t ! i)"
  by (simp_all add: id_deps_def)


lemma completed_ids_mono: "completed_step_ids t \<subseteq> completed_step_ids (after_batch h clk k t)"
proof
  fix d assume "d \<in> completed_step_ids t"
  then obtain i where i: "i < length (steps t)" "step_id (steps t ! i) = d" "status (steps t ! i) = COMPLETED"
    by (auto simp: completed_ids_nth)
  then have "\<not> is_ready (completed_step_ids t) (steps t ! i)" by (simp add: is_ready_def)
  with after_batch_nth[OF i(1), of h clk k] have "steps (after_batch h clk k t) ! i = steps t ! i" by simp
  with i show "d \<in> completed_step_ids (after_batch h clk k t)"
    unfolding completed_ids_nth[of d "after_batch h clk k t"] after_batch_length by auto
qed

lemma executed_after_deps_nth:
  "executed_after_deps t \<longleftrightarrow>
     (\<forall>i<length (steps t). status (steps t ! i) = PENDING \<or>
        (\<forall>d \<in> set (dependencies (steps t ! i)). d \<in> completed_step_ids t))"
proof -
  have "executed_after_deps t \<longleftrightarrow>
     (\<forall>s \<in> set (steps t). status s = PENDING \<or>
        (\<forall>d \<in> set (dependencies s). d \<in> completed_step_ids t))"
    by (simp add: executed_after_deps_def list_all_iff)
  also have "\<dots> \<longleftrightarrow> (\<forall>i<length (steps t). status (steps t ! i) = PENDING \<or>
        (\<forall>d \<in> set (dependencies (steps t ! i)). d \<in> completed_step_ids t))"
    by (simp add: all_set_conv_all_nth)
  finally show ?thesis .
qed

lemma after_batch_executed_after_deps:
  assumes "executed_after_deps t"
  shows "executed_after_deps (after_batch h clk k t)"
  unfolding executed_after_deps_nth[of "after_batch h clk k t"] after_batch_length
proof (intro allI impI)
  fix i assume i: "i < length (steps t)"
  let ?t' = "after_batch h clk k t"
  have deps: "dependencies (steps ?t' ! i) = dependencies (steps t ! i)"
    using i step_id_nth_id_deps(2)[of i ?t'] step_id_nth_id_deps(2)[of i t]
    by (simp add: after_batch_length after_batch_id_deps)
  show "status (steps ?t' ! i) = PENDING \<or> (\<forall>d \<in> set (dependencies (steps ?t' ! i)). d \<in> completed_step_ids ?t')"
  proof (cases "is_ready (completed_step_ids t) (steps t ! i)")
    case True
    then have "\<forall>d \<in> set (dependencies (steps t ! i)). d \<in> completed_step_ids t"
      by (simp add: is_ready_def list_all_iff)
    with completed_ids_mono[of t h clk k] deps show ?thesis by auto
  next
    case False
    then have st: "status (steps ?t' ! i) = status (steps t ! i)"
      using after_batch_status_nth[OF i, of h clk k] by simp
    show ?thesis
    proof (cases "status (steps t ! i) = PENDING")
      case True
      with st show ?thesis by simp
    next
      case False
      with assms i have "\<forall>d \<in> set (dependencies (steps t ! i)). d \<in> completed_step_ids t"
        by (auto simp: executed_after_deps_nth)
      with completed_ids_mono[of t h clk k] deps show ?thesis by auto
    qed
  qed
qed

lemma executed_after_deps_steps_only:
  "executed_after_deps t \<Longrightarrow> steps t' = steps t \<Longrightarrow> executed_after_deps t'"
  by (simp add: executed_after_deps_def completed_step_ids_def)

lemma ready_set_spec:
  "get_next_pending_steps t =
     filter (\<lambda>s. status s = PENDING \<and>
                 (\<forall>d \<in> set (dependencies s). \<exists>s' \<in> set (steps t). step_id s' = d \<and> status s' = COMPLETED))
       (steps t)"
  unfolding get_next_pending_steps_def
  by (rule filter_cong) (auto simp: is_ready_def completed_step_ids_def list_all_iff)

text \<open>
  C2. The ready set is exactly the steps that are pending and whose every listed
  dependency is the id of a completed step of the transaction. A pass of the loop changes
  a step only if it is in the ready set, and then to what the outcome of its handler
  says. Hence, in a transaction where no step has run before its dependencies, whatever
  the number of passes, every step that is no longer pending has all its listed
  dependencies completed.
\<close>

theorem ready_set_dependency_order:
  "get_next_pending_steps t =
     filter (\<lambda>s. status s = PENDING \<and>
                 (\<forall>d \<in> set (dependencies s). \<exists>s' \<in> set (steps t). step_id s' = d \<and> status s' = COMPLETED))
       (steps t)
   \<and> (\<forall>i<length (steps t).
         steps (after_batch h clk k t) ! i = steps t ! i
         \<or> (steps t ! i \<in> set (get_next_pending_steps t)
            \<and> (\<exists>j. steps (after_batch h clk k t) ! i = mark_step h clk j (steps t ! i))))
   \<and> (executed_after_deps t \<longrightarrow> (\<forall>m. executed_after_deps (fst (loop_state h clk m k t))))"
proof (intro conjI allI impI)
  show "get_next_pending_steps t =
     filter (\<lambda>s. status s = PENDING \<and>
                 (\<forall>d \<in> set (dependencies s). \<exists>s' \<in> set (steps t). step_id s' = d \<and> status s' = COMPLETED))
       (steps t)" by (rule ready_set_spec)
next
  fix i assume i: "i < length (steps t)"
  from after_batch_nth[OF i, of h clk k] i
  show "steps (after_batch h clk k t) ! i = steps t ! i
         \<or> (steps t ! i \<in> set (get_next_pending_steps t)
            \<and> (\<exists>j. steps (after_batch h clk k t) ! i = mark_step h clk j (steps t ! i)))"
    by (cases "is_ready (completed_step_ids t) (steps t ! i)")
       (auto simp: get_next_pending_steps_def)
next
  fix m assume "executed_after_deps t"
  then show "executed_after_deps (fst (loop_state h clk m k t))"
    by (rule loop_state_invariant)
       (auto intro: after_batch_executed_after_deps executed_after_deps_steps_only)
qed

lemma fork_run: "map status (steps (fst (loop_state ok_handler sample_clock 2 0 fork_tx))) = [COMPLETED, COMPLETED, COMPLETED]"
  by (simp add: sample_defs eval_nat_numeral)

theorem ready_set_dependency_order_witness:
  "map step_id (get_next_pending_steps fork_tx) = [''tx_0_step_1'', ''tx_0_step_2'']
   \<and> (2::nat) < length (steps fork_tx)
   \<and> steps (after_batch ok_handler sample_clock 0 fork_tx) ! 2 = steps fork_tx ! 2
   \<and> executed_after_deps fork_tx
   \<and> executed_after_deps (fst (loop_state ok_handler sample_clock 2 0 fork_tx))"
proof -
  have e: "executed_after_deps fork_tx" by (simp add: executed_after_deps_def sample_defs)
  have l: "(2::nat) < length (steps fork_tx)" by (simp add: sample_defs)
  have r: "map step_id (get_next_pending_steps fork_tx) = [''tx_0_step_1'', ''tx_0_step_2'']"
    by (simp add: sample_defs)
  have n: "steps fork_tx ! 2 \<notin> set (get_next_pending_steps fork_tx)"
    by (simp add: sample_defs eval_nat_numeral)
  from ready_set_dependency_order[of fork_tx ok_handler sample_clock 0] e l r n
  show ?thesis by blast
qed

section \<open>A handler that raises\<close>



lemma dep_rel_steps_only: "steps t' = steps t \<Longrightarrow> dep_rel t' = dep_rel t"
  by (simp add: dep_rel_def)





















section \<open>Cancelling\<close>



lemmas coordinator_defs =
  empty_coordinator_def purchase_coordinator_def new_TransactionCoordinator_def
  load_transaction_data_def initiate_nft_purchase_def register_transaction_def
  save_transaction_data_def active_objects_def history_objects_def






section \<open>The status query\<close>



text \<open>
  For a transaction without steps (none that the initiating operations create) the
  division of the percentage raises.
\<close>

lemma status_query_without_steps:
  "find_transaction c tid = Some t \<Longrightarrow> steps t = [] \<Longrightarrow> get_transaction_status c tid = Inl ZeroDivisionError"
  by (simp add: get_transaction_status_def)





section \<open>Saving and reloading\<close>







lemma active_objects_append_obj:
  "list_all (\<lambda>(tid, r). r < length (objs c)) (active_transactions c) \<Longrightarrow>
   active_objects (c\<lparr>objs := objs c @ [t]\<rparr>) = active_objects c"
  by (auto simp: active_objects_def list_all_iff nth_append)

lemma history_objects_append_obj:
  "list_all (\<lambda>r. r < length (objs c)) (transaction_history c) \<Longrightarrow>
   history_objects (c\<lparr>objs := objs c @ [t]\<rparr>) = history_objects c"
  by (auto simp: history_objects_def list_all_iff nth_append)






section \<open>Well-formed coordinators\<close>





















section \<open>Statuses of steps\<close>

lemma list_all_update:
  "list_all P xs \<Longrightarrow> (r < length xs \<Longrightarrow> P v) \<Longrightarrow> list_all P (xs[r := v])"
  by (cases "r < length xs")
     (auto simp: list_all_iff list_update_beyond not_less dest: set_update_subset_insert[THEN subsetD])

lemma steps_pcf_steps_only: "steps t' = steps t \<Longrightarrow> steps_pcf t' = steps_pcf t"
  by (simp add: steps_pcf_def)

lemma execute_steps_pcf:
  assumes "steps_pcf t"
  shows "steps_pcf (fst (execute_transaction_steps h clk k t sel))"
proof -
  have "st = PENDING \<or> st = COMPLETED \<or> st = FAILED"
    if "st \<in> set (map (\<lambda>(s, b). if b then outcome_status h s else status s) (zip (steps t) sel))" for st
  proof -
    from that obtain s b where sb: "(s, b) \<in> set (zip (steps t) sel)"
      and st: "st = (if b then outcome_status h s else status s)" by auto
    from sb have "s \<in> set (steps t)" by (rule set_zip_leftD)
    with assms have "status s = PENDING \<or> status s = COMPLETED \<or> status s = FAILED"
      by (simp add: steps_pcf_def list_all_iff)
    with st outcome_status_cases[of h s] show ?thesis by (cases b) auto
  qed
  moreover have "map status (steps (fst (execute_transaction_steps h clk k t sel))) =
      map (\<lambda>(s, b). if b then outcome_status h s else status s) (zip (steps t) sel)"
    unfolding execute_transaction_steps_def
    by (cases "update_step_statuses h clk k (zip (steps t) sel)")
       (use update_status[of h clk k "zip (steps t) sel"] in simp)
  ultimately show ?thesis
    unfolding steps_pcf_alt by simp
qed

lemma pcf_objs_update:
  "all_steps_pcf c \<Longrightarrow> (r < length (objs c) \<Longrightarrow> steps_pcf t) \<Longrightarrow>
   all_steps_pcf (c\<lparr>objs := (objs c)[r := t]\<rparr>)"
  by (simp add: all_steps_pcf_def list_all_update)

lemma pcf_nth: "all_steps_pcf c \<Longrightarrow> r < length (objs c) \<Longrightarrow> steps_pcf (objs c ! r)"
  by (simp add: all_steps_pcf_def list_all_length)

lemma pcf_fields:
  "all_steps_pcf (c\<lparr>data_file := f\<rparr>) = all_steps_pcf c"
  "all_steps_pcf (c\<lparr>transaction_history := hs\<rparr>) = all_steps_pcf c"
  "all_steps_pcf (c\<lparr>active_transactions := al\<rparr>) = all_steps_pcf c"
  by (simp_all add: all_steps_pcf_def)

lemma pcf_save: "all_steps_pcf (save_transaction_data c) = all_steps_pcf c"
  by (simp add: save_transaction_data_def pcf_fields)

lemma pcf_move_to_history:
  assumes "all_steps_pcf c"
  shows "all_steps_pcf (fst (move_to_history clk c k tid r))"
proof -
  have "all_steps_pcf (c\<lparr>transaction_history := transaction_history c @ [r],
           objs := (objs c)[r := (objs c ! r)\<lparr>tx_status := FAILED, updated_at := clk k\<rparr>]\<rparr>)"
    using assms pcf_nth[OF assms, of r]
    by (simp add: all_steps_pcf_def list_all_update steps_pcf_def)
  then show ?thesis using assms
    by (simp add: move_to_history_def Let_def pcf_save pcf_fields)
qed

lemma pcf_resume_loop:
  assumes "all_steps_pcf c"
  shows "all_steps_pcf (fst (resume_loop clk c k tid r))"
proof -
  have u: "all_steps_pcf (c\<lparr>objs := (objs c)[r := t']\<rparr>)" if "steps t' = steps (objs c ! r)" for t'
    using assms pcf_nth[OF assms, of r] steps_pcf_steps_only[OF that]
    by (intro pcf_objs_update) auto
  show ?thesis
    using assms
    by (auto simp: resume_loop_def Let_def case_prod_unfold intro!: pcf_move_to_history u)
qed

lemma pcf_resume_gather:
  assumes "all_steps_pcf c"
  shows "all_steps_pcf (fst (resume_gather h clk c k tid r sel))"
proof -
  have "r < length (objs c) \<Longrightarrow>
        steps_pcf ((fst (execute_transaction_steps h clk k (objs c ! r) sel))
                     \<lparr>updated_at := clk (snd (execute_transaction_steps h clk k (objs c ! r) sel))\<rparr>)"
    using execute_steps_pcf[OF pcf_nth[OF assms], of r h clk k sel] by (simp add: steps_pcf_def)
  with assms show ?thesis
    by (simp add: resume_gather_def case_prod_unfold pcf_save pcf_objs_update)
qed

lemma pcf_coroutine_step:
  assumes "all_steps_pcf c"
  shows "all_steps_pcf (fst (coroutine_step h clk c k co))"
proof (cases co)
  case (NotStarted tid)
  show ?thesis
  proof (cases "map_of (active_transactions c) tid")
    case None
    then show ?thesis using assms NotStarted by simp
  next
    case (Some r)
    have "all_steps_pcf (c\<lparr>objs := (objs c)[r := (objs c ! r)\<lparr>tx_status := EXECUTING, updated_at := clk k\<rparr>]\<rparr>)"
      using assms pcf_nth[OF assms, of r] by (intro pcf_objs_update) (auto simp: steps_pcf_def)
    from pcf_resume_loop[OF this] show ?thesis using NotStarted Some by simp
  qed
next
  case (Sleeping tid r)
  then show ?thesis using pcf_resume_loop[OF assms] by simp
next
  case (Gathering tid r sel)
  then show ?thesis using pcf_resume_gather[OF assms] by simp
next
  case Returned
  then show ?thesis using assms by simp
qed

lemma pcf_run_coroutine:
  "all_steps_pcf c \<Longrightarrow> run_coroutine h clk n c k co = Some (c', k') \<Longrightarrow> all_steps_pcf c'"
proof (induction n arbitrary: c k co)
  case 0
  then show ?case by (cases co) simp_all
next
  case (Suc n)
  show ?case
  proof (cases "co = Returned")
    case True
    then show ?thesis using Suc.prems by simp
  next
    case False
    obtain c1 k1 co1 where st: "coroutine_step h clk c k co = (c1, k1, co1)"
      by (cases "coroutine_step h clk c k co")
    from False Suc.prems(2) st have "run_coroutine h clk n c1 k1 co1 = Some (c', k')"
      by (cases co) simp_all
    moreover have "all_steps_pcf c1" using pcf_coroutine_step[OF Suc.prems(1), of h clk k co] st by simp
    ultimately show ?thesis by (rule Suc.IH[rotated])
  qed
qed

lemma pcf_cancel:
  assumes "all_steps_pcf c"
  shows "all_steps_pcf (snd (cancel_transaction c now tid reason))"
proof (cases "map_of (active_transactions c) tid")
  case None
  then show ?thesis using assms by (simp add: cancel_transaction_def)
next
  case (Some r)
  have "all_steps_pcf (c\<lparr>objs := (objs c)[r := (objs c ! r)\<lparr>tx_status := CANCELLED, updated_at := now,
             metadata := AList.update ''cancellation_reason'' (PStr reason) (metadata (objs c ! r))\<rparr>]\<rparr>)"
    using assms pcf_nth[OF assms, of r] by (intro pcf_objs_update) (auto simp: steps_pcf_def)
  then show ?thesis using assms Some
    by (simp add: cancel_transaction_def Let_def pcf_save pcf_fields)
qed

lemma pcf_register:
  "all_steps_pcf c \<Longrightarrow> steps_pcf t \<Longrightarrow> all_steps_pcf (register_transaction c t)"
  unfolding register_transaction_def pcf_save by (simp add: all_steps_pcf_def)

lemma listing_step_status:
  "map status (listing_steps tid s n p md) = [PENDING, PENDING, PENDING]"
  by (simp add: listing_steps_def new_TransactionStep_def)

lemma steps_pcf_pending: "list_all (\<lambda>st. st = PENDING) (map status (steps t)) \<Longrightarrow> steps_pcf t"
  by (simp add: steps_pcf_def list_all_iff)

lemma pcf_initiate_nft_purchase:
  "all_steps_pcf c \<Longrightarrow> all_steps_pcf (snd (initiate_nft_purchase c u now b s n p md))"
  by (simp add: initiate_nft_purchase_def Let_def pcf_register steps_pcf_pending purchase_step_status)

lemma pcf_initiate_nft_listing:
  "all_steps_pcf c \<Longrightarrow> all_steps_pcf (snd (initiate_nft_listing c u now s n p md))"
  by (simp add: initiate_nft_listing_def Let_def pcf_register steps_pcf_pending listing_step_status)

lemma pcf_new: "all_steps_pcf (new_TransactionCoordinator None)"
  by (simp add: new_TransactionCoordinator_def load_transaction_data_def all_steps_pcf_def)

text \<open>
  C10. A coordinator started without a data file has no step at all; and in a
  coordinator all of whose steps are pending, completed or failed, that is still so after
  a purchase or a listing is initiated (all steps of the new transaction are pending),
  after \<^verbatim>\<open>cancel_transaction\<close>, after every piece of \<^verbatim>\<open>process_transaction\<close> and
  after its whole run: no operation gives a step the status approved, executing or
  cancelled.
\<close>

theorem step_statuses_pending_completed_failed:
  "all_steps_pcf (new_TransactionCoordinator None)
   \<and> (all_steps_pcf c \<longrightarrow>
        all_steps_pcf (snd (initiate_nft_purchase c u now b s n p md))
      \<and> map status (steps (objs (snd (initiate_nft_purchase c u now b s n p md)) ! length (objs c)))
           = [PENDING, PENDING, PENDING, PENDING, PENDING]
      \<and> all_steps_pcf (snd (initiate_nft_listing c u now s n p md))
      \<and> map status (steps (objs (snd (initiate_nft_listing c u now s n p md)) ! length (objs c)))
           = [PENDING, PENDING, PENDING]
      \<and> all_steps_pcf (snd (cancel_transaction c now tid reason))
      \<and> all_steps_pcf (fst (coroutine_step h clk c k co))
      \<and> (\<forall>m c' k'. run_coroutine h clk m c k co = Some (c', k') \<longrightarrow> all_steps_pcf c')
      \<and> (\<forall>m c' k'. process_transaction h clk m c k tid = Some (c', k') \<longrightarrow> all_steps_pcf c'))"
proof -
  have p: "map status (steps (objs (snd (initiate_nft_purchase c u now b s n p md)) ! length (objs c)))
           = [PENDING, PENDING, PENDING, PENDING, PENDING]"
    by (simp add: initiate_nft_purchase_def register_transaction_def save_transaction_data_def Let_def
        purchase_step_status)
  have l: "map status (steps (objs (snd (initiate_nft_listing c u now s n p md)) ! length (objs c)))
           = [PENDING, PENDING, PENDING]"
    by (simp add: initiate_nft_listing_def register_transaction_def save_transaction_data_def Let_def
        listing_step_status)
  show ?thesis
    using p l pcf_new pcf_initiate_nft_purchase[of c u now b s n p md]
      pcf_initiate_nft_listing[of c u now s n p md] pcf_cancel[of c now tid reason]
      pcf_coroutine_step[of c h clk k co] pcf_run_coroutine[of c h clk _ k co]
      pcf_run_coroutine[of c h clk _ k "NotStarted tid"]
    unfolding process_transaction_def by blast
qed

theorem step_statuses_pending_completed_failed_witness:
  "all_steps_pcf empty_coordinator \<and> all_steps_pcf purchase_coordinator
   \<and> map status (steps (objs purchase_coordinator ! 0)) = [PENDING, PENDING, PENDING, PENDING, PENDING]
   \<and> all_steps_pcf (fst race_started)
   \<and> all_steps_pcf (snd race_cancelled)"
proof -
  note T1 = step_statuses_pending_completed_failed[where c = empty_coordinator and u = "''0''"
      and now = "''T''" and b = "''B''" and s = "''S''" and n = "''X''" and p = 100 and md = None]
  from T1 have e: "all_steps_pcf empty_coordinator" by (simp add: empty_coordinator_def)
  with T1 have p: "all_steps_pcf purchase_coordinator"
    and q: "map status (steps (objs purchase_coordinator ! 0)) = [PENDING, PENDING, PENDING, PENDING, PENDING]"
    unfolding purchase_coordinator_def by (simp_all add: empty_coordinator_def coordinator_defs)
  note T2 = step_statuses_pending_completed_failed[where c = purchase_coordinator
      and h = ok_handler and clk = sample_clock and k = 0 and co = "NotStarted ''tx_0''"]
  from T2 p have r: "all_steps_pcf (fst race_started)" unfolding race_started_def by blast
  note T3 = step_statuses_pending_completed_failed[where c = "fst race_started"
      and now = "''T!''" and tid = "''tx_0''" and reason = "''user requested''"]
  from T3 r have "all_steps_pcf (snd race_cancelled)" unfolding race_cancelled_def by blast
  with e p q r show ?thesis by blast
qed

section \<open>Transactions of the history\<close>































end
